theory Spec2Isabelle
  imports
    Main
    "HOL-Library.Product_Lexorder"
    "HOL-Library.List_Lexorder"
    "HOL-Library.Char_ord"
    "HOL-Library.Multiset"
begin

section \<open>Text\<close>

text \<open>
  A Python \<open>str\<close> is modelled as a \<open>string\<close>; each \<open>char\<close> stands for one code point
  below 256. The order of \<open>Char_ord\<close> and \<open>List_Lexorder\<close> is then Python's order on
  strings: code point by code point, a proper prefix first.
\<close>

definition py_isspace :: "char \<Rightarrow> bool" where
  \<comment> \<open>the code points below 256 that \<open>str.isspace\<close> and the pattern class \<open>\s\<close> accept\<close>
  "py_isspace c =
     (let n = (of_char c :: nat)
      in (9 \<le> n \<and> n \<le> 13) \<or> (28 \<le> n \<and> n \<le> 32) \<or> n = 133 \<or> n = 160)"

definition strip :: "string \<Rightarrow> string" where
  "strip s = rev (dropWhile py_isspace (rev (dropWhile py_isspace s)))"

definition lower_char :: "char \<Rightarrow> char" where
  "lower_char c =
     (let n = (of_char c :: nat)
      in if (65 \<le> n \<and> n \<le> 90) \<or> (192 \<le> n \<and> n \<le> 222 \<and> n \<noteq> 215)
         then char_of (n + 32) else c)"

definition lower :: "string \<Rightarrow> string" where
  "lower s = map lower_char s"

definition startswith :: "string \<Rightarrow> string \<Rightarrow> bool" where
  "startswith s p = (take (length p) s = p)"

definition digit_char :: "nat \<Rightarrow> char" where
  "digit_char n = char_of (48 + n)"

function str_nat :: "nat \<Rightarrow> string" where
  \<comment> \<open>\<open>str(n)\<close> and \<open>f"{n}"\<close> for an integer \<open>n \<ge> 0\<close>\<close>
  "str_nat n = (if n < 10 then [digit_char n] else str_nat (n div 10) @ [digit_char (n mod 10)])"
  by pat_completeness auto
termination
  by (relation "measure (\<lambda>n. n)") auto

declare str_nat.simps [simp del]

section \<open>Calendar dates\<close>

text \<open>
  A \<open>datetime.date\<close> is its year, month and day. The constructor \<open>mk_date\<close> and the
  parser \<open>from_date_str\<close> give only dates of the calendar (\<open>valid_date\<close>), between
  0001-01-01 and 9999-12-31; the comparison of dates is \<open>date_le\<close>, adding a day is
  \<open>add_day\<close>. An exception is a value of \<open>error\<close>.
\<close>

datatype error = ValueError | OverflowError | IllegalMonthError

record date =
  year :: int
  month :: int
  day :: int

definition isleap :: "int \<Rightarrow> bool" where
  "isleap y = (y mod 4 = 0 \<and> (y mod 100 \<noteq> 0 \<or> y mod 400 = 0))"

definition mdays :: "int \<Rightarrow> int" where
  "mdays m = (if m = 2 then 28 else if m \<in> {4, 6, 9, 11} then 30 else 31)"

definition days_in_month :: "int \<Rightarrow> int \<Rightarrow> int" where
  "days_in_month y m = mdays m + (if m = 2 \<and> isleap y then 1 else 0)"

definition monthrange_last :: "int \<Rightarrow> int \<Rightarrow> error + int" where
  \<comment> \<open>\<open>calendar.monthrange(year, month)[1]\<close>\<close>
  "monthrange_last y m =
     (if 1 \<le> m \<and> m \<le> 12 then Inr (days_in_month y m) else Inl IllegalMonthError)"

definition valid_date :: "date \<Rightarrow> bool" where
  "valid_date d =
     (1 \<le> year d \<and> year d \<le> 9999 \<and> 1 \<le> month d \<and> month d \<le> 12 \<and>
      1 \<le> day d \<and> day d \<le> days_in_month (year d) (month d))"

definition mk_date :: "int \<Rightarrow> int \<Rightarrow> int \<Rightarrow> error + date" where
  \<comment> \<open>\<open>dt.date(y, m, d)\<close>\<close>
  "mk_date y m d =
     (let r = \<lparr>year = y, month = m, day = d\<rparr>
      in if valid_date r then Inr r else Inl ValueError)"

definition days_before_year :: "int \<Rightarrow> int" where
  "days_before_year y = (y - 1) * 365 + (y - 1) div 4 - (y - 1) div 100 + (y - 1) div 400"

definition days_before_month :: "int \<Rightarrow> int \<Rightarrow> int" where
  "days_before_month y m = sum_list (map (days_in_month y) [1 .. m - 1])"

definition toordinal :: "date \<Rightarrow> int" where
  "toordinal d = days_before_year (year d) + days_before_month (year d) (month d) + day d"

definition weekday :: "date \<Rightarrow> int" where
  \<comment> \<open>0 is Monday, 6 is Sunday\<close>
  "weekday d = (toordinal d + 6) mod 7"

definition date_le :: "date \<Rightarrow> date \<Rightarrow> bool" where
  "date_le a b =
     (year a < year b \<or>
      (year a = year b \<and> (month a < month b \<or> (month a = month b \<and> day a \<le> day b))))"

definition add_day :: "date \<Rightarrow> error + date" where
  \<comment> \<open>\<open>d + dt.timedelta(days=1)\<close>; there is no date after 9999-12-31\<close>
  "add_day d =
     (if day d < days_in_month (year d) (month d) then Inr (d\<lparr>day := day d + 1\<rparr>)
      else if month d < 12 then Inr (d\<lparr>month := month d + 1, day := 1\<rparr>)
      else if year d < 9999 then Inr \<lparr>year = year d + 1, month = 1, day = 1\<rparr>
      else Inl OverflowError)"

definition dec2 :: "int \<Rightarrow> string" where
  "dec2 n = [digit_char (nat n div 10 mod 10), digit_char (nat n mod 10)]"

definition dec4 :: "int \<Rightarrow> string" where
  "dec4 n = [digit_char (nat n div 1000 mod 10), digit_char (nat n div 100 mod 10),
             digit_char (nat n div 10 mod 10), digit_char (nat n mod 10)]"

definition to_date_str :: "date \<Rightarrow> string" where
  \<comment> \<open>\<open>d.strftime("%Y-%m-%d")\<close>: the year on four digits, month and day on two\<close>
  "to_date_str d = dec4 (year d) @ ''-'' @ dec2 (month d) @ ''-'' @ dec2 (day d)"

definition is_digit :: "char \<Rightarrow> bool" where
  "is_digit c = (48 \<le> (of_char c :: nat) \<and> (of_char c :: nat) \<le> 57)"

definition digit_val :: "char \<Rightarrow> int" where
  "digit_val c = int (of_char c) - 48"

definition is_digit_in :: "char \<Rightarrow> int \<Rightarrow> int \<Rightarrow> bool" where
  \<comment> \<open>the pattern class \<open>[lo-hi]\<close>\<close>
  "is_digit_in c lo hi = (is_digit c \<and> lo \<le> digit_val c \<and> digit_val c \<le> hi)"

text \<open>
  \<open>strptime\<close> turns the format \<open>%Y-%m-%d\<close> into the pattern
  \<open>(\d\d\d\d)-(1[0-2]|0[1-9]|[1-9])-(3[0-1]|[1-2]\d|0[1-9]|[1-9]| [1-9])\<close>, matches it at
  the start of the text and raises when text is left over or when the three numbers are
  not a date. \<open>None\<close> stands for the raised ValueError.
\<close>

definition parse_year :: "string \<Rightarrow> (int \<times> string) option" where
  "parse_year s =
     (case s of
        a # b # c # d # rest \<Rightarrow>
          if is_digit a \<and> is_digit b \<and> is_digit c \<and> is_digit d
          then Some (1000 * digit_val a + 100 * digit_val b + 10 * digit_val c + digit_val d, rest)
          else None
      | _ \<Rightarrow> None)"

definition parse_month :: "string \<Rightarrow> (int \<times> string) option" where
  \<comment> \<open>the month and the hyphen after it\<close>
  "parse_month s =
     (case s of
        a # b # rest \<Rightarrow>
          if a = CHR ''1'' \<and> is_digit_in b 0 2 then
            (case rest of c # rest' \<Rightarrow>
               if c = CHR ''-'' then Some (10 + digit_val b, rest') else None
             | [] \<Rightarrow> None)
          else if a = CHR ''0'' \<and> is_digit_in b 1 9 then
            (case rest of c # rest' \<Rightarrow>
               if c = CHR ''-'' then Some (digit_val b, rest') else None
             | [] \<Rightarrow> None)
          else if is_digit_in a 1 9 \<and> b = CHR ''-'' then Some (digit_val a, rest)
          else None
      | _ \<Rightarrow> None)"

definition parse_day :: "string \<Rightarrow> int option" where
  \<comment> \<open>the day, which has to be the rest of the text\<close>
  "parse_day s =
     (case s of
        [a] \<Rightarrow> if is_digit_in a 1 9 then Some (digit_val a) else None
      | [a, b] \<Rightarrow>
          if a = CHR ''3'' \<and> is_digit_in b 0 1 then Some (30 + digit_val b)
          else if is_digit_in a 1 2 \<and> is_digit b then Some (10 * digit_val a + digit_val b)
          else if a = CHR ''0'' \<and> is_digit_in b 1 9 then Some (digit_val b)
          else if is_digit_in a 1 9 then None
          else if a = CHR '' '' \<and> is_digit_in b 1 9 then Some (digit_val b)
          else None
      | _ \<Rightarrow> None)"

definition from_date_str :: "string \<Rightarrow> date option" where
  "from_date_str s =
     (case parse_year s of
        None \<Rightarrow> None
      | Some (y, r1) \<Rightarrow>
          (case r1 of
             [] \<Rightarrow> None
           | h # r2 \<Rightarrow>
               if h \<noteq> CHR ''-'' then None
               else (case parse_month r2 of
                       None \<Rightarrow> None
                     | Some (m, r3) \<Rightarrow>
                         (case parse_day r3 of
                            None \<Rightarrow> None
                          | Some d \<Rightarrow>
                              (case mk_date y m d of Inl _ \<Rightarrow> None | Inr dd \<Rightarrow> Some dd)))))"

section \<open>Occurrences\<close>

text \<open>
  The dictionaries that the three sources produce. A key that a reader fetches with
  \<open>get\<close> is an option; \<open>None\<close> is the absent key as well as JSON's null.
\<close>

record event =
  e_id :: string
  e_title :: "string option"
  e_date :: "string option"
  e_time :: "(int \<times> int) option"
  e_source :: string
  e_link :: "string option"
  e_feed :: "string option"
  e_color :: string

section \<open>The feed client\<close>

datatype dtvalue =
    DateTimeAware date int int int
  | DateTimeNaive date int int
  | DateOnly date
  | OtherValue

datatype dtstart_prop =
    Prop dtvalue
  | NoDt

record component =
  uid :: "string option"
  summary :: "string option"
  dtstart :: "dtstart_prop option"
  url :: "string option"
  description :: "string option"

datatype feed_result = FetchError | Feed "component list"

text \<open>
  What the client reads from outside: the transport and the feed parser together
  (\<open>FetchError\<close> is any exception of \<open>requests.get\<close>, \<open>raise_for_status\<close> or
  \<open>from_ical\<close>), the clock, and the conversion of a zoned date and time (date, hour,
  minute, offset) to the local zone. \<open>NoDt\<close> is a start property without a \<open>dt\<close>
  attribute, as the list that the parser returns for a repeated property: reading
  \<open>dtstart.dt\<close> raises.
\<close>

record world =
  http_get :: "string \<Rightarrow> nat \<Rightarrow> feed_result"
  today :: date
  astimezone :: "date \<Rightarrow> int \<Rightarrow> int \<Rightarrow> int \<Rightarrow> date \<times> int \<times> int"

definition dt_to_local_date_time :: "world \<Rightarrow> dtvalue \<Rightarrow> date \<times> (int \<times> int) option" where
  "dt_to_local_date_time w dtv =
     (case dtv of
        DateTimeAware d h mi off \<Rightarrow>
          (case astimezone w d h mi off of (ld, lh, lm) \<Rightarrow> (ld, Some (lh, lm)))
      | DateTimeNaive d h mi \<Rightarrow> (d, Some (h, mi))
      | DateOnly d \<Rightarrow> (d, None)
      | OtherValue \<Rightarrow> (today w, None))"

definition match_url_at :: "string \<Rightarrow> string option" where
  \<comment> \<open>\<open>https?://\S+\<close> matched at the start of the text\<close>
  "match_url_at s =
     (let t8 = takeWhile (\<lambda>c. \<not> py_isspace c) (drop 8 s);
          t7 = takeWhile (\<lambda>c. \<not> py_isspace c) (drop 7 s)
      in if startswith s ''https://'' \<and> t8 \<noteq> [] then Some (''https://'' @ t8)
         else if startswith s ''http://'' \<and> t7 \<noteq> [] then Some (''http://'' @ t7)
         else None)"

fun url_search :: "string \<Rightarrow> string option" where
  \<comment> \<open>\<open>URL_RE.search\<close>: the leftmost match\<close>
  "url_search [] = None"
| "url_search (c # cs) =
     (case match_url_at (c # cs) of Some u \<Rightarrow> Some u | None \<Rightarrow> url_search cs)"

definition or_default :: "string option \<Rightarrow> string \<Rightarrow> string" where
  \<comment> \<open>\<open>str(x or default)\<close>\<close>
  "or_default x dflt = (case x of None \<Rightarrow> dflt | Some s \<Rightarrow> if s = [] then dflt else s)"

definition resolve_link :: "component \<Rightarrow> string option" where
  "resolve_link vev =
     (case url vev of
        Some u \<Rightarrow> if u \<noteq> [] then Some u
                  else (case description vev of
                          None \<Rightarrow> None
                        | Some ds \<Rightarrow> if ds = [] then None else url_search ds)
      | None \<Rightarrow> (case description vev of
                   None \<Rightarrow> None
                 | Some ds \<Rightarrow> if ds = [] then None else url_search ds))"

definition ics_event :: "world \<Rightarrow> nat \<Rightarrow> string \<Rightarrow> nat \<Rightarrow> component \<Rightarrow> dtvalue \<Rightarrow> event" where
  "ics_event w i feed_url tot vev dtv =
     (case dt_to_local_date_time w dtv of
        (d, tm) \<Rightarrow>
          \<lparr>e_id = ''ics:'' @ str_nat i @ '':'' @
                  or_default (uid vev) (''u'' @ str_nat i @ ''-'' @ str_nat tot),
           e_title = Some (or_default (summary vev) ''Evento''),
           e_date = Some (to_date_str d),
           e_time = tm,
           e_source = ''ics'',
           e_link = resolve_link vev,
           e_feed = Some feed_url,
           e_color = ''ics''\<rparr>)"

fun walk_vevents ::
  "world \<Rightarrow> nat \<Rightarrow> string \<Rightarrow> component list \<Rightarrow> event list \<Rightarrow> nat \<Rightarrow> bool \<times> event list \<times> nat" where
  \<comment> \<open>the inner loop over one feed; the first component says whether it raised\<close>
  "walk_vevents w i feed_url [] all_events tot = (False, all_events, tot)"
| "walk_vevents w i feed_url (vev # rest) all_events tot =
     (case dtstart vev of
        None \<Rightarrow> walk_vevents w i feed_url rest all_events tot
      | Some NoDt \<Rightarrow> (True, all_events, tot)
      | Some (Prop dtv) \<Rightarrow>
          walk_vevents w i feed_url rest
            (all_events @ [ics_event w i feed_url tot vev dtv]) (tot + 1))"

fun fetch_loop ::
  "world \<Rightarrow> nat \<Rightarrow> nat \<Rightarrow> string list \<Rightarrow> event list \<Rightarrow> nat \<Rightarrow> nat \<Rightarrow> event list \<times> nat \<times> nat" where
  \<comment> \<open>the loop over \<open>enumerate(urls)\<close>, from index \<open>i\<close>; returns all_events, total, errors\<close>
  "fetch_loop w timeout i [] all_events tot errors = (all_events, tot, errors)"
| "fetch_loop w timeout i (u # us) all_events tot errors =
     (case http_get w u timeout of
        FetchError \<Rightarrow> fetch_loop w timeout (i + 1) us all_events tot (errors + 1)
      | Feed comps \<Rightarrow>
          (case walk_vevents w i u comps all_events tot of
             (raised, all_events', tot') \<Rightarrow>
               fetch_loop w timeout (i + 1) us all_events' tot'
                 (if raised then errors + 1 else errors)))"

record ics_client =
  sources_file :: "string list option"
  urls :: "string list"
  events :: "event list"
  status :: string

definition safe_load_json :: "'a list option \<Rightarrow> 'a list \<Rightarrow> 'a list" where
  \<comment> \<open>the document of a file; the default when the file is absent or unreadable\<close>
  "safe_load_json file dflt = (case file of None \<Rightarrow> dflt | Some doc \<Rightarrow> doc)"

definition ICSClient :: "string list option \<Rightarrow> ics_client" where
  "ICSClient file =
     \<lparr>sources_file = file, urls = safe_load_json file [], events = [],
      status = ''ICS: sem fontes''\<rparr>"

definition add_source :: "ics_client \<Rightarrow> string \<Rightarrow> (bool \<times> string) \<times> ics_client" where
  "add_source c u0 =
     (let u = strip u0
      in if \<not> startswith (lower u) ''http'' then
           ((False, ''URL inv'' @ [CHR 0xE1] @ ''lida''), c)
         else
           (let us = safe_load_json (sources_file c) []
            in if u \<notin> set us
               then ((True, ''Fonte ICS adicionada''),
                     c\<lparr>urls := us @ [u], sources_file := Some (us @ [u])\<rparr>)
               else ((True, ''Fonte ICS adicionada''), c\<lparr>urls := us\<rparr>)))"

definition fetch_status :: "nat \<Rightarrow> nat \<Rightarrow> string" where
  "fetch_status tot errors =
     (if errors \<noteq> 0 \<and> tot \<noteq> 0 then
        ''ICS: '' @ str_nat tot @ '' eventos, '' @ str_nat errors @ '' falhas''
      else if errors \<noteq> 0 \<and> tot = 0 then ''ICS: erro ao carregar fontes''
      else ''ICS: '' @ str_nat tot @ '' eventos'')"

definition fetch_all :: "world \<Rightarrow> ics_client \<Rightarrow> nat \<Rightarrow> ics_client" where
  "fetch_all w c timeout =
     (let us = safe_load_json (sources_file c) []
      in if us = [] then c\<lparr>events := [], status := ''ICS: sem fontes''\<rparr>
         else (case fetch_loop w timeout 0 us [] 0 0 of
                 (all_events, tot, errors) \<Rightarrow>
                   c\<lparr>events := all_events, status := fetch_status tot errors\<rparr>))"

definition get_events :: "ics_client \<Rightarrow> event list" where
  "get_events c = events c"

section \<open>Routines\<close>

record routine =
  r_id :: "string option"
  r_title :: "string option"
  r_type :: "string option"
  days_of_week :: "int list"
  r_time :: "(int \<times> int) option"
  start_date :: "string option"
  end_date :: "string option"

definition fmt_opt :: "string option \<Rightarrow> string" where
  \<comment> \<open>\<open>f"{x}"\<close>: an absent value prints as None\<close>
  "fmt_opt x = (case x of None \<Rightarrow> ''None'' | Some s \<Rightarrow> s)"

definition routine_event :: "routine \<Rightarrow> date \<Rightarrow> event" where
  "routine_event r cur =
     \<lparr>e_id = ''routine:'' @ fmt_opt (r_id r) @ '':'' @ to_date_str cur,
      e_title = Some (case r_title r of None \<Rightarrow> ''Rotina'' | Some t \<Rightarrow> t),
      e_date = Some (to_date_str cur),
      e_time = r_time r,
      e_source = ''routine'',
      e_link = None,
      e_feed = None,
      e_color = ''routine''\<rparr>"

definition includes_date :: "routine \<Rightarrow> date \<Rightarrow> date option \<Rightarrow> date \<Rightarrow> bool" where
  \<comment> \<open>the two nested tests of the loop body\<close>
  "includes_date r start fin cur =
     (weekday cur \<in> set (days_of_week r) \<and>
      date_le start cur \<and> (case fin of None \<Rightarrow> True | Some e \<Rightarrow> date_le cur e))"

function expand_loop ::
  "routine \<Rightarrow> date \<Rightarrow> date option \<Rightarrow> date \<Rightarrow> date \<Rightarrow> event list \<Rightarrow> error + event list" where
  "expand_loop r start fin last_date cur results =
     (if date_le cur last_date then
        (case add_day cur of
           Inl err \<Rightarrow> Inl err
         | Inr nxt \<Rightarrow>
             expand_loop r start fin last_date nxt
               (if includes_date r start fin cur then results @ [routine_event r cur]
                else results))
      else Inr results)"
  by pat_completeness auto
termination
proof (relation "measures
    [\<lambda>(r, start, fin, last_date, cur, results). nat (year last_date + 1 - year cur),
     \<lambda>(r, start, fin, last_date, cur, results). nat (12 - month cur),
     \<lambda>(r, start, fin, last_date, cur, results).
        nat (days_in_month (year cur) (month cur) - day cur)]", goal_cases)
  case 1
  show ?case by simp
next
  case (2 r start fin last_date cur results nxt)
  then show ?case
    by (auto simp: add_day_def date_le_def split: if_splits)
qed

declare expand_loop.simps [simp del]

definition parse_end :: "string option \<Rightarrow> error + date option" where
  \<comment> \<open>\<open>from_date_str(end) if end else None\<close>, outside the try block\<close>
  "parse_end e =
     (case e of
        None \<Rightarrow> Inr None
      | Some s \<Rightarrow>
          if s = [] then Inr None
          else (case from_date_str s of None \<Rightarrow> Inl ValueError | Some d \<Rightarrow> Inr (Some d)))"

definition expand_routine :: "routine \<Rightarrow> date \<Rightarrow> date \<Rightarrow> event list \<Rightarrow> error + event list" where
  \<comment> \<open>one turn of the loop over the routines\<close>
  "expand_routine r first_date last_date results =
     (if r_type r \<noteq> Some ''weekly'' then Inr results
      else (case start_date r of
              None \<Rightarrow> Inr results
            | Some s \<Rightarrow>
                (case from_date_str s of
                   None \<Rightarrow> Inr results
                 | Some start \<Rightarrow>
                     (case parse_end (end_date r) of
                        Inl err \<Rightarrow> Inl err
                      | Inr fin \<Rightarrow> expand_loop r start fin last_date first_date results))))"

fun expand_all :: "routine list \<Rightarrow> date \<Rightarrow> date \<Rightarrow> event list \<Rightarrow> error + event list" where
  "expand_all [] first_date last_date results = Inr results"
| "expand_all (r # rs) first_date last_date results =
     (case expand_routine r first_date last_date results of
        Inl err \<Rightarrow> Inl err
      | Inr results' \<Rightarrow> expand_all rs first_date last_date results')"

definition expand_routines_for_month :: "routine list \<Rightarrow> int \<Rightarrow> int \<Rightarrow> error + event list" where
  "expand_routines_for_month routines y m =
     (case mk_date y m 1 of
        Inl err \<Rightarrow> Inl err
      | Inr first_date \<Rightarrow>
          (case monthrange_last y m of
             Inl err \<Rightarrow> Inl err
           | Inr last_day \<Rightarrow>
               (case mk_date y m last_day of
                  Inl err \<Rightarrow> Inl err
                | Inr last_date \<Rightarrow> expand_all routines first_date last_date [])))"

section \<open>The month index\<close>

definition in_month :: "int \<Rightarrow> int \<Rightarrow> event \<Rightarrow> bool" where
  \<comment> \<open>the try block of the two filters: any exception drops the event\<close>
  "in_month y m e =
     (case e_date e of
        None \<Rightarrow> False
      | Some s \<Rightarrow>
          (case from_date_str s of None \<Rightarrow> False | Some d \<Rightarrow> year d = y \<and> month d = m))"

fun setdefault_append ::
  "(string \<times> event list) list \<Rightarrow> string \<Rightarrow> event \<Rightarrow> (string \<times> event list) list" where
  \<comment> \<open>\<open>m.setdefault(ds, []).append(e)\<close> on a dictionary in insertion order\<close>
  "setdefault_append [] ds e = [(ds, [e])]"
| "setdefault_append ((k, lst) # kvs) ds e =
     (if k = ds then (k, lst @ [e]) # kvs else (k, lst) # setdefault_append kvs ds e)"

fun group_by_date ::
  "event list \<Rightarrow> (string \<times> event list) list \<Rightarrow> (string \<times> event list) list" where
  "group_by_date [] m = m"
| "group_by_date (e # es) m =
     (case e_date e of
        None \<Rightarrow> group_by_date es m
      | Some ds \<Rightarrow>
          if ds = [] then group_by_date es m
          else group_by_date es (setdefault_append m ds e))"

definition sort_key_of :: "event \<Rightarrow> int \<times> string" where
  \<comment> \<open>the key function of \<open>lst.sort\<close>\<close>
  "sort_key_of ev =
     ((case e_time ev of None \<Rightarrow> 999 | Some (h, mi) \<Rightarrow> h * 60 + mi),
      (case e_title ev of None \<Rightarrow> [] | Some t \<Rightarrow> t))"

definition events_map_for_month ::
  "event list \<Rightarrow> event list \<Rightarrow> routine list \<Rightarrow> int \<Rightarrow> int
     \<Rightarrow> error + (string \<times> event list) list" where
  "events_map_for_month user_events ics_events_cache routines y m =
     (case expand_routines_for_month routines y m of
        Inl err \<Rightarrow> Inl err
      | Inr expanded \<Rightarrow>
          Inr (map (\<lambda>(ds, lst). (ds, sort_key sort_key_of lst))
                 (group_by_date
                    (filter (in_month y m) user_events @
                     filter (in_month y m) ics_events_cache @ expanded) [])))"

section \<open>The specification's reading of a feed URL\<close>

definition spec_has_http_scheme :: "string \<Rightarrow> bool" where
  \<comment> \<open>the specification's words: the URL has an http or https scheme\<close>
  "spec_has_http_scheme u =
     (startswith (lower u) ''http://'' \<or> startswith (lower u) ''https://'')"

section \<open>Sample data\<close>

definition demo_feed :: "component list" where
  "demo_feed =
     [\<lparr>uid = Some ''x'', summary = None, dtstart = Some (Prop OtherValue), url = None,
       description = Some ''see https://foo.bar/x y''\<rparr>,
      \<lparr>uid = None, summary = Some ''T'',
       dtstart = Some (Prop (DateOnly \<lparr>year = 2024, month = 2, day = 3\<rparr>)),
       url = None, description = None\<rparr>]"

definition demo_world :: world where
  "demo_world =
     \<lparr>http_get = (\<lambda>u t. if u = ''http://a'' then FetchError else Feed demo_feed),
      today = \<lparr>year = 2026, month = 11, day = 4\<rparr>,
      astimezone = (\<lambda>d h mi off. (d, h, mi))\<rparr>"

section \<open>Failing sources\<close>

definition feed_raises :: "component list \<Rightarrow> bool" where
  \<comment> \<open>the walk over the feed raises: some start property has no \<open>dt\<close>\<close>
  "feed_raises comps = (\<exists>v\<in>set comps. dtstart v = Some NoDt)"

definition url_fails :: "world \<Rightarrow> nat \<Rightarrow> string \<Rightarrow> bool" where
  \<comment> \<open>the try block of this URL ends in the handler\<close>
  "url_fails w t u = (case http_get w u t of FetchError \<Rightarrow> True | Feed comps \<Rightarrow> feed_raises comps)"

definition demo_client :: ics_client where
  "demo_client = ICSClient (Some [''http://a'', ''http://b''])"

section \<open>The dates of a month\<close>

definition month_days :: "int \<Rightarrow> int \<Rightarrow> date list" where
  \<comment> \<open>the dates that the loop from \<open>first\<close> to \<open>last\<close> visits\<close>
  "month_days y m = map (\<lambda>k. \<lparr>year = y, month = m, day = k\<rparr>) [1 .. days_in_month y m]"

definition expansion_of :: "routine \<Rightarrow> int \<Rightarrow> int \<Rightarrow> event list" where
  \<comment> \<open>what one routine adds to \<open>results\<close> when nothing raises\<close>
  "expansion_of r y m =
     (if r_type r \<noteq> Some ''weekly'' then []
      else (case start_date r of
              None \<Rightarrow> []
            | Some s \<Rightarrow>
                (case from_date_str s of
                   None \<Rightarrow> []
                 | Some start \<Rightarrow>
                     (case parse_end (end_date r) of
                        Inl err \<Rightarrow> []
                      | Inr fin \<Rightarrow>
                          map (routine_event r)
                            (filter (includes_date r start fin) (month_days y m))))))"

definition gym :: routine where
  "gym = \<lparr>r_id = Some ''r1'', r_title = Some ''Gym'', r_type = Some ''weekly'',
           days_of_week = [0], r_time = Some (7, 0), start_date = Some ''2024-01-01'',
           end_date = None\<rparr>"

definition gym29 :: routine where
  "gym29 = gym\<lparr>start_date := Some ''2024-01-29''\<rparr>"

section \<open>The events of a month\<close>

definition dated :: "event \<Rightarrow> bool" where
  \<comment> \<open>the grouping loop keeps the event: its date is neither absent nor empty\<close>
  "dated e = (case e_date e of None \<Rightarrow> False | Some ds \<Rightarrow> ds \<noteq> [])"


definition month_events :: "event list \<Rightarrow> event list \<Rightarrow> routine list \<Rightarrow> int \<Rightarrow> int \<Rightarrow> event list" where
  \<comment> \<open>the list \<open>events\<close> before grouping, when nothing raises\<close>
  "month_events U I rs y m =
     filter (in_month y m) U @ filter (in_month y m) I @
     concat (map (\<lambda>r. expansion_of r y m) rs)"

section \<open>More sample data\<close>

definition ua :: event where
  "ua = \<lparr>e_id = ''user:1'', e_title = Some ''A'', e_date = Some ''2024-01-15'',
          e_time = None, e_source = ''user'', e_link = None, e_feed = None,
          e_color = ''user''\<rparr>"

definition ub :: event where
  "ub = \<lparr>e_id = ''user:2'', e_title = Some ''B'', e_date = Some ''2024-01-15'',
          e_time = Some (17, 0), e_source = ''user'', e_link = None, e_feed = None,
          e_color = ''user''\<rparr>"

definition gym29_event :: event where
  "gym29_event = \<lparr>e_id = ''routine:r1:2024-01-29'', e_title = Some ''Gym'',
          e_date = Some ''2024-01-29'', e_time = Some (7, 0), e_source = ''routine'',
          e_link = None, e_feed = None, e_color = ''routine''\<rparr>"


section \<open>The ids of a month index\<close>

definition index_ids :: "(string \<times> event list) list \<Rightarrow> string list" where
  \<comment> \<open>the ids of all occurrences of a month index\<close>
  "index_ids mp = map e_id (concat (map snd mp))"

definition ids_of_result :: "error + (string \<times> event list) list \<Rightarrow> string list" where
  \<comment> \<open>the same for a call; a call that raises returns no occurrence\<close>
  "ids_of_result res = (case res of Inl err \<Rightarrow> [] | Inr mp \<Rightarrow> index_ids mp)"

definition dup_feed :: "component list" where
  "dup_feed =
     [\<lparr>uid = Some ''x'', summary = Some ''Weekly'',
       dtstart = Some (Prop (DateTimeNaive \<lparr>year = 2024, month = 2, day = 3\<rparr> 9 0)),
       url = None, description = None\<rparr>,
      \<lparr>uid = Some ''x'', summary = Some ''Weekly (moved)'',
       dtstart = Some (Prop (DateTimeNaive \<lparr>year = 2024, month = 2, day = 10\<rparr> 10 30)),
       url = None, description = None\<rparr>]"

definition dup_world :: world where
  "dup_world = demo_world\<lparr>http_get := (\<lambda>u t. Feed dup_feed)\<rparr>"

section \<open>The feed client: sources\<close>

text \<open>
  C5. When the persisted source list is empty (or its file is absent or unreadable),
  \<open>fetch_all\<close> publishes an empty occurrence list with the status "ICS: sem fontes" and
  returns; nothing else of the client changes.
\<close>

theorem fetch_all_no_sources:
  assumes "safe_load_json (sources_file c) [] = []"
  shows "fetch_all w c timeout = c\<lparr>events := [], status := ''ICS: sem fontes''\<rparr>"
  using assms by (simp add: fetch_all_def)

theorem fetch_all_no_sources_witness:
  "safe_load_json (sources_file (ICSClient None)) [] = [] \<and>
   fetch_all demo_world (ICSClient None) 15 =
     (ICSClient None)\<lparr>events := [], status := ''ICS: sem fontes''\<rparr>"
proof -
  have h: "safe_load_json (sources_file (ICSClient None)) [] = []"
    by (simp add: ICSClient_def safe_load_json_def)
  from h fetch_all_no_sources [OF h, of demo_world 15] show ?thesis by blast
qed

text \<open>
  C4, as the specification states it, fails: \<open>add_source\<close> accepts the text
  "httpx://cal", which has neither an http nor an https scheme.
\<close>

theorem add_source_counterexample:
  "\<not> (fst (fst (add_source (ICSClient None) ''httpx://cal'')) \<longleftrightarrow>
       spec_has_http_scheme ''httpx://cal'')"
  by code_simp

text \<open>
  C4, amended. \<open>add_source\<close> succeeds exactly when the text, stripped of surrounding
  white space and put in lower case, begins with "http"; when it fails it returns the
  message "URL invalida" (with an acute accent) and the client, its persisted list
  included, is unchanged.
\<close>

theorem add_source_prefix_check:
  "(fst (fst (add_source c u)) \<longleftrightarrow> startswith (lower (strip u)) ''http'') \<and>
   (\<not> fst (fst (add_source c u)) \<longrightarrow>
      add_source c u = ((False, ''URL inv'' @ [CHR 0xE1] @ ''lida''), c))"
  by (simp add: add_source_def Let_def)

theorem add_source_prefix_check_witness:
  "\<not> fst (fst (add_source (ICSClient (Some [''https://x/cal.ics''])) ''not-a-url'')) \<and>
   add_source (ICSClient (Some [''https://x/cal.ics''])) ''not-a-url'' =
     ((False, ''URL inv'' @ [CHR 0xE1] @ ''lida''), ICSClient (Some [''https://x/cal.ics'']))"
proof -
  have h: "\<not> fst (fst (add_source (ICSClient (Some [''https://x/cal.ics''])) ''not-a-url''))"
    by code_simp
  from h add_source_prefix_check [of "ICSClient (Some [''https://x/cal.ics''])" "''not-a-url''"]
  show ?thesis by blast
qed

section \<open>The feed client: one cycle\<close>

lemma walk_vevents_raised:
  "fst (walk_vevents w i u comps evs tot) = feed_raises comps"
  by (induction comps arbitrary: evs tot)
     (auto simp: feed_raises_def split: option.splits dtstart_prop.splits)

lemma walk_vevents_extends:
  "\<exists>new. fst (snd (walk_vevents w i u comps evs tot)) = evs @ new \<and>
         snd (snd (walk_vevents w i u comps evs tot)) = tot + length new"
proof (induction comps arbitrary: evs tot)
  case Nil
  then show ?case by simp
next
  case (Cons v comps)
  show ?case
  proof (cases "dtstart v")
    case None
    then show ?thesis using Cons.IH [of evs tot] by simp
  next
    case (Some p)
    show ?thesis
    proof (cases p)
      case (Prop dtv)
      obtain new where
        "fst (snd (walk_vevents w i u comps (evs @ [ics_event w i u tot v dtv]) (tot + 1))) =
           (evs @ [ics_event w i u tot v dtv]) @ new"
        "snd (snd (walk_vevents w i u comps (evs @ [ics_event w i u tot v dtv]) (tot + 1))) =
           (tot + 1) + length new"
        using Cons.IH [of "evs @ [ics_event w i u tot v dtv]" "tot + 1"] by blast
      then show ?thesis using Some Prop
        by (intro exI [of _ "ics_event w i u tot v dtv # new"]) simp
    next
      case NoDt
      then show ?thesis using Some by simp
    qed
  qed
qed

lemma walk_vevents_emits:
  assumes "\<forall>p\<in>set pre. dtstart p \<noteq> Some NoDt" and "dtstart v = Some (Prop dtv)"
  shows "\<exists>k. ics_event w i u k v dtv \<in>
              set (fst (snd (walk_vevents w i u (pre @ v # post) evs tot)))"
  using assms(1)
proof (induction pre arbitrary: evs tot)
  case Nil
  obtain new where
    "fst (snd (walk_vevents w i u post (evs @ [ics_event w i u tot v dtv]) (tot + 1))) =
       (evs @ [ics_event w i u tot v dtv]) @ new"
    using walk_vevents_extends by blast
  then show ?case using assms(2) by (intro exI [of _ tot]) simp
next
  case (Cons p pre)
  then show ?case
    by (cases "dtstart p") (auto split: dtstart_prop.splits)
qed

lemma fetch_loop_extends:
  "\<exists>new. fst (fetch_loop w t i us evs tot errs) = evs @ new \<and>
         fst (snd (fetch_loop w t i us evs tot errs)) = tot + length new \<and>
         snd (snd (fetch_loop w t i us evs tot errs)) = errs + length (filter (url_fails w t) us)"
proof (induction us arbitrary: i evs tot errs)
  case Nil
  then show ?case by simp
next
  case (Cons u us)
  show ?case
  proof (cases "http_get w u t")
    case FetchError
    then have uf: "url_fails w t u" by (simp add: url_fails_def)
    show ?thesis using FetchError uf Cons.IH [of "i + 1" evs tot "errs + 1"]
      by simp
  next
    case (Feed comps)
    obtain r evs' tot' where wk: "walk_vevents w i u comps evs tot = (r, evs', tot')"
      by (cases "walk_vevents w i u comps evs tot") auto
    have r: "r = feed_raises comps"
      using walk_vevents_raised [of w i u comps evs tot] wk by simp
    obtain n1 where n1: "evs' = evs @ n1" "tot' = tot + length n1"
      using walk_vevents_extends [of w i u comps evs tot] wk by auto
    obtain n2 where n2:
      "fst (fetch_loop w t (i + 1) us evs' tot' (if r then errs + 1 else errs)) = evs' @ n2"
      "fst (snd (fetch_loop w t (i + 1) us evs' tot' (if r then errs + 1 else errs))) =
         tot' + length n2"
      "snd (snd (fetch_loop w t (i + 1) us evs' tot' (if r then errs + 1 else errs))) =
         (if r then errs + 1 else errs) + length (filter (url_fails w t) us)"
      using Cons.IH [of "i + 1" evs' tot' "if r then errs + 1 else errs"] by blast
    have uf: "url_fails w t u = feed_raises comps"
      using Feed by (simp add: url_fails_def)
    show ?thesis
      using Feed wk n1 n2 r uf
      by (intro exI [of _ "n1 @ n2"]) simp
  qed
qed

lemma fetch_loop_emits:
  assumes "j < length us" and "http_get w (us ! j) t = Feed (pre @ v # post)"
    and "\<forall>p\<in>set pre. dtstart p \<noteq> Some NoDt" and "dtstart v = Some (Prop dtv)"
  shows "\<exists>k. ics_event w (i + j) (us ! j) k v dtv \<in> set (fst (fetch_loop w t i us evs tot errs))"
  using assms(1,2)
proof (induction us arbitrary: i j evs tot errs)
  case Nil
  then show ?case by simp
next
  case (Cons u us)
  show ?case
  proof (cases j)
    case 0
    then have get: "http_get w u t = Feed (pre @ v # post)" using Cons.prems by simp
    obtain r evs' tot' where wk: "walk_vevents w i u (pre @ v # post) evs tot = (r, evs', tot')"
      by (cases "walk_vevents w i u (pre @ v # post) evs tot") auto
    obtain k where k: "ics_event w i u k v dtv \<in> set evs'"
      using walk_vevents_emits [OF assms(3,4), of w i u post evs tot] wk by auto
    obtain n2 where
      "fst (fetch_loop w t (i + 1) us evs' tot' (if r then errs + 1 else errs)) = evs' @ n2"
      using fetch_loop_extends by blast
    then show ?thesis using 0 get wk k by (intro exI [of _ k]) simp
  next
    case (Suc j')
    then have j': "j' < length us" "http_get w (us ! j') t = Feed (pre @ v # post)"
      using Cons.prems by simp_all
    show ?thesis
    proof (cases "http_get w u t")
      case FetchError
      then show ?thesis using Cons.IH [OF j', of "i + 1" evs tot "errs + 1"] Suc by simp
    next
      case (Feed comps)
      obtain r evs' tot' where wk: "walk_vevents w i u comps evs tot = (r, evs', tot')"
        by (cases "walk_vevents w i u comps evs tot") auto
      show ?thesis
        using Feed wk Suc Cons.IH [OF j', of "i + 1" evs' tot' "if r then errs + 1 else errs"]
        by simp
    qed
  qed
qed

lemma fetch_all_status:
  assumes "safe_load_json (sources_file c) [] = us" and "us \<noteq> []"
  shows "status (fetch_all w c t) =
           fetch_status (length (events (fetch_all w c t)))
             (length (filter (url_fails w t) us))"
proof -
  obtain evs tot errs where fl: "fetch_loop w t 0 us [] 0 0 = (evs, tot, errs)"
    by (cases "fetch_loop w t 0 us [] 0 0") auto
  have "tot = length evs" "errs = length (filter (url_fails w t) us)"
    using fetch_loop_extends [of w t 0 us "[]" 0 0] fl by auto
  then show ?thesis using assms fl by (simp add: fetch_all_def)
qed

lemma fetch_all_events:
  assumes "safe_load_json (sources_file c) [] = us" and "us \<noteq> []"
  shows "events (fetch_all w c t) = fst (fetch_loop w t 0 us [] 0 0)"
  using assms by (simp add: fetch_all_def split: prod.splits)

text \<open>
  C6. No failure leaves \<open>fetch_all\<close>: the function is total, every URL whose try block
  fails adds one to the failure counter (\<open>url_fails\<close> counts them) and the loop goes on
  to the next URL. Whatever the other sources do, a source that parses has each of its
  components with a start in the published list; the list is then not empty, and the
  status gives its length and, when some source failed, the number of failures.
\<close>

theorem fetch_all_absorbs_failures:
  assumes "safe_load_json (sources_file c) [] = us"
    and "j < length us" and "http_get w (us ! j) t = Feed comps"
    and "\<not> feed_raises comps" and "v \<in> set comps" and "dtstart v = Some (Prop dtv)"
  shows "(\<exists>k. ics_event w j (us ! j) k v dtv \<in> set (events (fetch_all w c t))) \<and>
         0 < length (events (fetch_all w c t)) \<and>
         status (fetch_all w c t) =
           (if length (filter (url_fails w t) us) = 0
            then ''ICS: '' @ str_nat (length (events (fetch_all w c t))) @ '' eventos''
            else ''ICS: '' @ str_nat (length (events (fetch_all w c t))) @ '' eventos, '' @
                 str_nat (length (filter (url_fails w t) us)) @ '' falhas'')"
proof -
  have ne: "us \<noteq> []" using assms(2) by auto
  obtain pre post where sp: "comps = pre @ v # post"
    using assms(5) by (meson split_list)
  have pre: "\<forall>p\<in>set pre. dtstart p \<noteq> Some NoDt"
    using assms(4) sp by (auto simp: feed_raises_def)
  obtain k where k: "ics_event w j (us ! j) k v dtv \<in> set (fst (fetch_loop w t 0 us [] 0 0))"
    using fetch_loop_emits [OF assms(2) assms(3) [unfolded sp] pre assms(6), of 0 "[]" 0 0]
    by auto
  then have mem: "ics_event w j (us ! j) k v dtv \<in> set (events (fetch_all w c t))"
    using fetch_all_events [OF assms(1) ne] by simp
  then have pos: "0 < length (events (fetch_all w c t))"
    by (cases "events (fetch_all w c t)") auto
  show ?thesis
    using mem pos fetch_all_status [OF assms(1) ne, of w t]
    by (auto simp: fetch_status_def)
qed

theorem fetch_all_absorbs_failures_witness:
  "http_get demo_world ''http://a'' 15 = FetchError \<and>
   http_get demo_world ''http://b'' 15 = Feed demo_feed \<and>
   \<not> feed_raises demo_feed \<and>
   (\<exists>k. ics_event demo_world 1 ''http://b'' k (demo_feed ! 1)
           (DateOnly \<lparr>year = 2024, month = 2, day = 3\<rparr>)
         \<in> set (events (fetch_all demo_world demo_client 15))) \<and>
   length (events (fetch_all demo_world demo_client 15)) = 2 \<and>
   status (fetch_all demo_world demo_client 15) = ''ICS: 2 eventos, 1 falhas''"
proof -
  have h1: "safe_load_json (sources_file demo_client) [] = [''http://a'', ''http://b'']"
    by code_simp
  have h2: "1 < length [''http://a'', ''http://b'']" by simp
  have h3: "http_get demo_world ([''http://a'', ''http://b''] ! 1) 15 = Feed demo_feed"
    by code_simp
  have h4: "\<not> feed_raises demo_feed" by code_simp
  have h5: "demo_feed ! 1 \<in> set demo_feed" by code_simp
  have h6: "dtstart (demo_feed ! 1) = Some (Prop (DateOnly \<lparr>year = 2024, month = 2, day = 3\<rparr>))"
    by code_simp
  have e1: "http_get demo_world ''http://a'' 15 = FetchError" by code_simp
  have e2: "length (events (fetch_all demo_world demo_client 15)) = 2" by code_simp
  have e3: "status (fetch_all demo_world demo_client 15) = ''ICS: 2 eventos, 1 falhas''"
    by code_simp
  from fetch_all_absorbs_failures [OF h1 h2 h3 h4 h5 h6]
  have "\<exists>k. ics_event demo_world 1 ([''http://a'', ''http://b''] ! 1) k (demo_feed ! 1)
           (DateOnly \<lparr>year = 2024, month = 2, day = 3\<rparr>)
         \<in> set (events (fetch_all demo_world demo_client 15))"
    by blast
  then show ?thesis using e1 e2 e3 h3 h4 by simp
qed

text \<open>
  C9. A component whose start value is neither a date and time nor a date is not
  skipped: the published list has an occurrence for it, dated with the day the fetch
  runs (\<open>today\<close>) and without a time.
\<close>

theorem fetch_all_other_start_dated_today:
  assumes "safe_load_json (sources_file c) [] = us"
    and "j < length us" and "http_get w (us ! j) t = Feed (pre @ v # post)"
    and "\<forall>p\<in>set pre. dtstart p \<noteq> Some NoDt" and "dtstart v = Some (Prop OtherValue)"
  shows "\<exists>e\<in>set (events (fetch_all w c t)).
           e_date e = Some (to_date_str (today w)) \<and> e_time e = None \<and>
           e_title e = Some (or_default (summary v) ''Evento'') \<and>
           e_link e = resolve_link v \<and> e_feed e = Some (us ! j) \<and> e_source e = ''ics''"
proof -
  have ne: "us \<noteq> []" using assms(2) by auto
  obtain k where k: "ics_event w j (us ! j) k v OtherValue \<in> set (fst (fetch_loop w t 0 us [] 0 0))"
    using fetch_loop_emits [OF assms(2,3,4,5), of 0 "[]" 0 0] by auto
  then have "ics_event w j (us ! j) k v OtherValue \<in> set (events (fetch_all w c t))"
    using fetch_all_events [OF assms(1) ne] by simp
  then show ?thesis
    by (intro bexI [of _ "ics_event w j (us ! j) k v OtherValue"])
       (simp_all add: ics_event_def dt_to_local_date_time_def)
qed

theorem fetch_all_other_start_dated_today_witness:
  "dtstart (demo_feed ! 0) = Some (Prop OtherValue) \<and>
   (\<exists>e\<in>set (events (fetch_all demo_world demo_client 15)).
      e_date e = Some (to_date_str (today demo_world)) \<and> e_time e = None \<and>
      e_title e = Some (or_default (summary (demo_feed ! 0)) ''Evento'') \<and>
      e_link e = resolve_link (demo_feed ! 0) \<and> e_feed e = Some ''http://b'' \<and>
      e_source e = ''ics'') \<and>
   map e_date (events (fetch_all demo_world demo_client 15)) =
     [Some ''2026-11-04'', Some ''2024-02-03''] \<and>
   map e_date (events (fetch_all
       (demo_world\<lparr>today := \<lparr>year = 2026, month = 11, day = 5\<rparr>\<rparr>) demo_client 15)) =
     [Some ''2026-11-05'', Some ''2024-02-03'']"
proof -
  have h1: "safe_load_json (sources_file demo_client) [] = [''http://a'', ''http://b'']"
    by code_simp
  have h2: "1 < length [''http://a'', ''http://b'']" by simp
  have h3: "http_get demo_world ([''http://a'', ''http://b''] ! 1) 15 =
              Feed ([] @ demo_feed ! 0 # [demo_feed ! 1])"
    by code_simp
  have h4: "\<forall>p\<in>set []. dtstart p \<noteq> Some NoDt" by simp
  have h5: "dtstart (demo_feed ! 0) = Some (Prop OtherValue)" by code_simp
  have e1: "map e_date (events (fetch_all demo_world demo_client 15)) =
     [Some ''2026-11-04'', Some ''2024-02-03'']" by code_simp
  have e2: "map e_date (events (fetch_all
       (demo_world\<lparr>today := \<lparr>year = 2026, month = 11, day = 5\<rparr>\<rparr>) demo_client 15)) =
     [Some ''2026-11-05'', Some ''2024-02-03'']" by code_simp
  from fetch_all_other_start_dated_today [OF h1 h2 h3 h4 h5] h5 e1 e2
  show ?thesis by simp
qed

section \<open>Dates as text\<close>

lemma of_char_digit_char: "k < 10 \<Longrightarrow> (of_char (digit_char k) :: nat) = 48 + k"
  by (simp add: digit_char_def)

lemma is_digit_digit_char: "k < 10 \<Longrightarrow> is_digit (digit_char k)"
  by (simp add: is_digit_def of_char_digit_char)

lemma digit_val_digit_char: "k < 10 \<Longrightarrow> digit_val (digit_char k) = int k"
  by (simp add: digit_val_def of_char_digit_char)

lemma char_eq_code: "(c = d) = ((of_char c :: nat) = of_char d)"
  by simp

lemma digit_char_eq_0: "k < 10 \<Longrightarrow> (digit_char k = CHR ''0'') = (k = 0)"
  by (simp add: char_eq_code [of "digit_char k"] of_char_digit_char)

lemma digit_char_eq_1: "k < 10 \<Longrightarrow> (digit_char k = CHR ''1'') = (k = 1)"
  by (simp add: char_eq_code [of "digit_char k"] of_char_digit_char)

lemma digit_char_eq_3: "k < 10 \<Longrightarrow> (digit_char k = CHR ''3'') = (k = 3)"
  by (simp add: char_eq_code [of "digit_char k"] of_char_digit_char)

lemma digit_char_neq_hyphen: "k < 10 \<Longrightarrow> digit_char k \<noteq> CHR ''-''"
  by (simp add: char_eq_code [of "digit_char k"] of_char_digit_char)

lemma digit_char_neq_space: "k < 10 \<Longrightarrow> digit_char k \<noteq> CHR '' ''"
  by (simp add: char_eq_code [of "digit_char k"] of_char_digit_char)

lemma is_digit_in_digit_char:
  "k < 10 \<Longrightarrow> is_digit_in (digit_char k) lo hi = (lo \<le> int k \<and> int k \<le> hi)"
  by (simp add: is_digit_in_def is_digit_digit_char digit_val_digit_char)

lemmas digit_simps = is_digit_digit_char digit_val_digit_char digit_char_eq_0 digit_char_eq_1
  digit_char_eq_3 digit_char_neq_hyphen digit_char_neq_space is_digit_in_digit_char


lemma dec4_value:
  assumes "n < 10000"
  shows "int (n div 1000 mod 10) * 1000 + int (n div 100 mod 10) * 100 +
         int (n div 10 mod 10) * 10 + int (n mod 10) = int n"
proof -
  have a: "n div 1000 mod 10 = n div 1000" using assms by simp
  have b: "n div 100 = 10 * (n div 1000) + n div 100 mod 10"
    using div_mult_mod_eq [of "n div 100" 10] by (simp add: div_mult2_eq [symmetric])
  have c: "n div 10 = 10 * (n div 100) + n div 10 mod 10"
    using div_mult_mod_eq [of "n div 10" 10] by (simp add: div_mult2_eq [symmetric])
  have d: "n = 10 * (n div 10) + n mod 10" by simp
  have "n div 1000 mod 10 * 1000 + n div 100 mod 10 * 100 + n div 10 mod 10 * 10 + n mod 10 = n"
    using a b c d by linarith
  then show ?thesis by (metis (no_types) of_nat_add of_nat_mult of_nat_numeral)
qed

lemma parse_year_dec4:
  assumes "0 \<le> y" "y \<le> 9999"
  shows "parse_year (dec4 y @ rest) = Some (y, rest)"
proof -
  define n where "n = nat y"
  have n: "n < 10000" "y = int n" using assms by (simp_all add: n_def)
  show ?thesis
    using dec4_value [OF n(1)]
    using n by (simp add: parse_year_def dec4_def digit_simps)
qed


lemma parse_month_dec2:
  assumes "1 \<le> m" "m \<le> 12"
  shows "parse_month (dec2 m @ CHR ''-'' # rest) = Some (m, rest)"
proof -
  define n where "n = nat m"
  have n: "1 \<le> n" "n \<le> 12" "m = int n" using assms by (simp_all add: n_def)
  show ?thesis
  proof (cases "n < 10")
    case True
    then have "n div 10 mod 10 = 0" "n mod 10 = n" by simp_all
    then show ?thesis
      using n True unfolding n(3)
      by (simp add: parse_month_def dec2_def digit_simps)
  next
    case False
    then have "n = 10 \<or> n = 11 \<or> n = 12" using n by arith
    then show ?thesis
      unfolding n(3)
      by (elim disjE) (simp_all add: parse_month_def dec2_def digit_simps)
  qed
qed

lemma parse_day_dec2:
  assumes "1 \<le> d" "d \<le> 31"
  shows "parse_day (dec2 d) = Some d"
proof -
  define n where "n = nat d"
  have n: "1 \<le> n" "n \<le> 31" "d = int n" using assms by (simp_all add: n_def)
  consider "n < 10" | "10 \<le> n" "n < 30" | "30 \<le> n" by linarith
  then show ?thesis
  proof cases
    case 1
    then have "n div 10 mod 10 = 0" "n mod 10 = n" by simp_all
    then show ?thesis
      using n 1 unfolding n(3) by (simp add: parse_day_def dec2_def digit_simps)
  next
    case 2
    have q: "1 \<le> n div 10" "n div 10 \<le> 2" using 2 by arith+
    then have "n div 10 mod 10 = n div 10" by simp
    moreover have "int (n div 10) * 10 + int (n mod 10) = int n"
      by (metis (no_types) div_mult_mod_eq of_nat_add of_nat_mult of_nat_numeral)
    ultimately show ?thesis
      using q unfolding n(3) by (simp add: parse_day_def dec2_def digit_simps)
  next
    case 3
    then have "n = 30 \<or> n = 31" using n by arith
    then show ?thesis
      unfolding n(3) by (elim disjE) (simp_all add: parse_day_def dec2_def digit_simps)
  qed
qed

lemma days_in_month_le_31: "days_in_month y m \<le> 31"
  by (simp add: days_in_month_def mdays_def)

lemma from_date_str_to_date_str:
  assumes "valid_date d"
  shows "from_date_str (to_date_str d) = Some d"
proof -
  have y: "0 \<le> year d" "year d \<le> 9999" and m: "1 \<le> month d" "month d \<le> 12"
    and dd: "1 \<le> day d" "day d \<le> 31"
    using assms days_in_month_le_31 [of "year d" "month d"] by (auto simp: valid_date_def)
  have "from_date_str (dec4 (year d) @ CHR ''-'' # dec2 (month d) @ CHR ''-'' # dec2 (day d)) =
          Some d"
    using assms
    by (simp add: from_date_str_def parse_year_dec4 [OF y] parse_month_dec2 [OF m]
        parse_day_dec2 [OF dd] mk_date_def Let_def valid_date_def)
  then show ?thesis by (simp add: to_date_str_def)
qed

lemma mk_date_Inr:
  "mk_date y m d = Inr r \<Longrightarrow> valid_date r \<and> year r = y \<and> month r = m \<and> day r = d"
proof -
  assume a: "mk_date y m d = Inr r"
  have v: "valid_date \<lparr>year = y, month = m, day = d\<rparr>"
  proof (rule ccontr)
    assume "\<not> valid_date \<lparr>year = y, month = m, day = d\<rparr>"
    then have "mk_date y m d = Inl ValueError" by (simp add: mk_date_def Let_def)
    with a show False by simp
  qed
  then have "mk_date y m d = Inr \<lparr>year = y, month = m, day = d\<rparr>"
    by (simp add: mk_date_def Let_def)
  with a have r: "r = \<lparr>year = y, month = m, day = d\<rparr>" by simp
  show ?thesis unfolding r using v by simp
qed

lemma from_date_str_Some:
  assumes "from_date_str s = Some d"
  shows "\<exists>y m dd. mk_date y m dd = Inr d"
proof -
  obtain y r1 where 1: "parse_year s = Some (y, r1)"
    using assms by (cases "parse_year s") (auto simp: from_date_str_def)
  obtain h r2 where 2: "r1 = h # r2"
    using assms 1 by (cases r1) (auto simp: from_date_str_def)
  have 3: "h = CHR ''-''"
    using assms 1 2 by (cases "h = CHR ''-''") (auto simp: from_date_str_def)
  obtain m r3 where 4: "parse_month r2 = Some (m, r3)"
    using assms 1 2 3 by (cases "parse_month r2") (auto simp: from_date_str_def)
  obtain dd where 5: "parse_day r3 = Some dd"
    using assms 1 2 3 4 by (cases "parse_day r3") (auto simp: from_date_str_def)
  have "mk_date y m dd = Inr d"
    using assms 1 2 3 4 5 by (cases "mk_date y m dd") (auto simp: from_date_str_def)
  then show ?thesis by blast
qed

lemma from_date_str_valid:
  assumes "from_date_str s = Some d"
  shows "valid_date d"
proof -
  obtain y m dd where "mk_date y m dd = Inr d"
    using from_date_str_Some [OF assms] by blast
  then show ?thesis by (rule mk_date_Inr [THEN conjunct1])
qed

lemma length_to_date_str: "length (to_date_str d) = 10"
  by (simp add: to_date_str_def dec4_def dec2_def)

lemma to_date_str_nonempty: "to_date_str d \<noteq> []"
  by (simp add: to_date_str_def dec4_def)

lemma to_date_str_inj:
  assumes "valid_date a" "valid_date b" "to_date_str a = to_date_str b"
  shows "a = b"
proof -
  have "Some a = from_date_str (to_date_str a)"
    using assms(1) by (simp add: from_date_str_to_date_str)
  also have "\<dots> = Some b"
    using assms(2,3) by (simp add: from_date_str_to_date_str)
  finally show ?thesis by simp
qed

section \<open>Expanding routines\<close>

lemma date_eta: "\<lparr>year = year d, month = month d, day = day d\<rparr> = (d::date)"
  by simp

lemma days_in_month_ge_28: "28 \<le> days_in_month y m"
  by (simp add: days_in_month_def mdays_def)

lemma expand_loop_in_month:
  assumes "1 \<le> k" and "k \<le> L + 1" and "L \<le> days_in_month y m"
    and "\<not> (y = 9999 \<and> m = 12) \<or> L < days_in_month y m" and "y \<le> 9999" and "m \<le> 12"
  shows "expand_loop r start fin \<lparr>year = y, month = m, day = L\<rparr>
           \<lparr>year = y, month = m, day = k\<rparr> results =
         Inr (results @ map (routine_event r)
                (filter (includes_date r start fin)
                   (map (\<lambda>j. \<lparr>year = y, month = m, day = j\<rparr>) [k .. L])))"
  using assms(1,2)
proof (induction "nat (L + 1 - k)" arbitrary: k results)
  case 0
  then have "k = L + 1" by simp
  then show ?case
    by (subst expand_loop.simps) (simp add: date_le_def)
next
  case (Suc n)
  then have kL: "k \<le> L" by linarith
  have le: "date_le \<lparr>year = y, month = m, day = k\<rparr> \<lparr>year = y, month = m, day = L\<rparr>"
    using kL by (simp add: date_le_def)
  have nxt: "add_day \<lparr>year = y, month = m, day = k\<rparr> = Inr \<lparr>year = y, month = m, day = k + 1\<rparr>
             \<or> (k = L \<and> (\<exists>d'. add_day \<lparr>year = y, month = m, day = k\<rparr> = Inr d' \<and>
                   \<not> date_le d' \<lparr>year = y, month = m, day = L\<rparr>))"
    using kL assms(3,4,5,6) by (auto simp: add_day_def date_le_def)
  have up: "[k .. L] = k # [k + 1 .. L]" using kL by (simp add: upto_rec1)
  from nxt show ?case
  proof
    assume a: "add_day \<lparr>year = y, month = m, day = k\<rparr> = Inr \<lparr>year = y, month = m, day = k + 1\<rparr>"
    have n: "n = nat (L + 1 - (k + 1))" using Suc.hyps(2) by linarith
    show ?thesis
      using Suc.hyps(1) [OF n, of "if includes_date r start fin \<lparr>year = y, month = m, day = k\<rparr>
          then results @ [routine_event r \<lparr>year = y, month = m, day = k\<rparr>] else results"]
        Suc.prems kL le a up
      by (subst expand_loop.simps) simp
  next
    assume "k = L \<and> (\<exists>d'. add_day \<lparr>year = y, month = m, day = k\<rparr> = Inr d' \<and>
                   \<not> date_le d' \<lparr>year = y, month = m, day = L\<rparr>)"
    then obtain d' where kk: "k = L" and a: "add_day \<lparr>year = y, month = m, day = k\<rparr> = Inr d'"
      and nle: "\<not> date_le d' \<lparr>year = y, month = m, day = L\<rparr>" by blast
    have stop: "expand_loop r start fin \<lparr>year = y, month = m, day = L\<rparr> d' rs = Inr rs" for rs
      using nle by (subst expand_loop.simps) simp
    show ?thesis
      using le a kk stop up
      by (subst expand_loop.simps) simp
  qed
qed

lemma expand_loop_overflow:
  assumes "1 \<le> k" and "k \<le> 31"
  shows "expand_loop r start fin \<lparr>year = 9999, month = 12, day = 31\<rparr>
           \<lparr>year = 9999, month = 12, day = k\<rparr> results = Inl OverflowError"
  using assms
proof (induction "nat (31 - k)" arbitrary: k results)
  case 0
  then have "k = 31" by simp
  then show ?case
    by (subst expand_loop.simps)
       (simp add: date_le_def add_day_def days_in_month_def mdays_def)
next
  case (Suc n)
  then have k: "k < 31" by linarith
  have n: "n = nat (31 - (k + 1))" using Suc.hyps(2) by linarith
  have a: "add_day \<lparr>year = 9999, month = 12, day = k\<rparr> =
             Inr \<lparr>year = 9999, month = 12, day = k + 1\<rparr>"
    using k by (simp add: add_day_def days_in_month_def mdays_def)
  show ?case
    using Suc.hyps(1) [OF n] Suc.prems k a
    by (subst expand_loop.simps) (simp add: date_le_def)
qed

lemma expand_loop_month:
  assumes "1 \<le> y" "y \<le> 9999" "1 \<le> m" "m \<le> 12"
  shows "expand_loop r start fin \<lparr>year = y, month = m, day = days_in_month y m\<rparr>
           \<lparr>year = y, month = m, day = 1\<rparr> results =
         (if y = 9999 \<and> m = 12 then Inl OverflowError
          else Inr (results @ map (routine_event r)
                 (filter (includes_date r start fin) (month_days y m))))"
proof (cases "y = 9999 \<and> m = 12")
  case True
  then have "days_in_month y m = 31" by (simp add: days_in_month_def mdays_def)
  then show ?thesis
    using True expand_loop_overflow [of 1 r start fin results] by simp
next
  case False
  have "1 \<le> days_in_month y m + 1" using days_in_month_ge_28 [of y m] by linarith
  then show ?thesis
    using False assms
      expand_loop_in_month [of 1 "days_in_month y m" y m r start fin results]
    by (simp add: month_days_def map_map [symmetric] filter_map del: map_map)
qed

lemma month_bounds:
  assumes "1 \<le> y" "y \<le> 9999" "1 \<le> m" "m \<le> 12"
  shows "mk_date y m 1 = Inr \<lparr>year = y, month = m, day = 1\<rparr>"
    and "monthrange_last y m = Inr (days_in_month y m)"
    and "mk_date y m (days_in_month y m) = Inr \<lparr>year = y, month = m, day = days_in_month y m\<rparr>"
  using assms days_in_month_ge_28 [of y m]
  by (simp_all add: mk_date_def valid_date_def monthrange_last_def Let_def)

lemma month_invalid:
  assumes "\<not> (1 \<le> y \<and> y \<le> 9999 \<and> 1 \<le> m \<and> m \<le> 12)"
  shows "mk_date y m 1 = Inl ValueError"
  using assms by (auto simp: mk_date_def valid_date_def Let_def)

lemma expand_routine_month:
  assumes "1 \<le> y" "y \<le> 9999" "1 \<le> m" "m \<le> 12"
  shows "expand_routine r \<lparr>year = y, month = m, day = 1\<rparr>
           \<lparr>year = y, month = m, day = days_in_month y m\<rparr> results = Inr res
         \<Longrightarrow> res = results @ expansion_of r y m"
  unfolding expand_routine_def expansion_of_def
  by (auto simp: expand_loop_month [OF assms] split: option.splits sum.splits if_splits)

lemma expand_all_month:
  assumes "1 \<le> y" "y \<le> 9999" "1 \<le> m" "m \<le> 12"
  shows "expand_all rs \<lparr>year = y, month = m, day = 1\<rparr>
           \<lparr>year = y, month = m, day = days_in_month y m\<rparr> results = Inr res
         \<Longrightarrow> res = results @ concat (map (\<lambda>r. expansion_of r y m) rs)"
proof (induction rs arbitrary: results)
  case Nil
  then show ?case by simp
next
  case (Cons r rs)
  then obtain mid where
    1: "expand_routine r \<lparr>year = y, month = m, day = 1\<rparr>
          \<lparr>year = y, month = m, day = days_in_month y m\<rparr> results = Inr mid"
    and 2: "expand_all rs \<lparr>year = y, month = m, day = 1\<rparr>
          \<lparr>year = y, month = m, day = days_in_month y m\<rparr> mid = Inr res"
    by (auto split: sum.splits)
  show ?case
    using expand_routine_month [OF assms 1] Cons.IH [OF 2] by simp
qed

lemma expand_routines_for_month_Inr:
  assumes "expand_routines_for_month rs y m = Inr ex"
  shows "1 \<le> y \<and> y \<le> 9999 \<and> 1 \<le> m \<and> m \<le> 12 \<and>
         ex = concat (map (\<lambda>r. expansion_of r y m) rs)"
proof (cases "1 \<le> y \<and> y \<le> 9999 \<and> 1 \<le> m \<and> m \<le> 12")
  case False
  then show ?thesis
    using assms month_invalid [OF False] by (simp add: expand_routines_for_month_def)
next
  case True
  then have v: "1 \<le> y" "y \<le> 9999" "1 \<le> m" "m \<le> 12" by simp_all
  have "expand_all rs \<lparr>year = y, month = m, day = 1\<rparr>
          \<lparr>year = y, month = m, day = days_in_month y m\<rparr> [] = Inr ex"
    using assms by (simp add: expand_routines_for_month_def month_bounds [OF v])
  then show ?thesis using expand_all_month [OF v] True by fastforce
qed

lemma expand_single:
  assumes "1 \<le> y" "y \<le> 9999" "1 \<le> m" "m \<le> 12" "\<not> (y = 9999 \<and> m = 12)"
    and "r_type r = Some ''weekly''" and "start_date r = Some s"
    and "from_date_str s = Some start" and "parse_end (end_date r) = Inr fin"
  shows "expand_routines_for_month [r] y m =
           Inr (map (routine_event r) (filter (includes_date r start fin) (month_days y m)))"
  using assms(5-9)
  by (simp add: expand_routines_for_month_def month_bounds [OF assms(1-4)]
      expand_routine_def expand_loop_month [OF assms(1-4)])

lemma month_days_valid:
  assumes "1 \<le> y" "y \<le> 9999" "1 \<le> m" "m \<le> 12" and "d \<in> set (month_days y m)"
  shows "valid_date d \<and> year d = y \<and> month d = m"
  using assms by (auto simp: month_days_def valid_date_def)

lemma distinct_month_days: "distinct (month_days y m)"
  by (simp add: month_days_def distinct_map inj_on_def)

lemma in_month_days:
  "1 \<le> k \<Longrightarrow> k \<le> days_in_month y m \<Longrightarrow> \<lparr>year = y, month = m, day = k\<rparr> \<in> set (month_days y m)"
  by (simp add: month_days_def)

lemma e_date_routine_event: "e_date (routine_event r d) = Some (to_date_str d)"
  by (simp add: routine_event_def)



lemma filter_eq_singleton: "distinct xs \<Longrightarrow> x \<in> set xs \<Longrightarrow> filter (\<lambda>y. y = x) xs = [x]"
proof (induction xs)
  case Nil
  then show ?case by simp
next
  case (Cons a xs)
  show ?case
  proof (cases "a = x")
    case True
    then have "x \<notin> set xs" using Cons.prems by simp
    then have "filter (\<lambda>y. y = x) xs = []" by (auto simp: filter_empty_conv)
    then show ?thesis using True by simp
  next
    case False
    then show ?thesis using Cons by simp
  qed
qed

text \<open>
  C3, as the specification states it, fails: the only occurrence of the routine "r1" in
  January 2024 has the id "routine:r1:2024-01-29", not "r1:2024-01-29".
\<close>

theorem expand_routine_id_counterexample:
  "expand_routines_for_month [gym29] 2024 1 =
     Inr [\<lparr>e_id = ''routine:r1:2024-01-29'', e_title = Some ''Gym'',
           e_date = Some ''2024-01-29'', e_time = Some (7, 0), e_source = ''routine'',
           e_link = None, e_feed = None, e_color = ''routine''\<rparr>] \<and>
   r_id gym29 = Some ''r1'' \<and>
   ''routine:r1:2024-01-29'' \<noteq> ''r1'' @ '':'' @ ''2024-01-29''"
  by code_simp

text \<open>
  C3, amended. For every date that the routine includes, the expansion has exactly one
  occurrence on that date; its id is "routine:" followed by the routine's id, a colon and
  the date text, its title and time are the routine's, its source is "routine".
\<close>

theorem expand_one_occurrence_per_date:
  assumes "1 \<le> y" "y \<le> 9999" "1 \<le> m" "m \<le> 12" "\<not> (y = 9999 \<and> m = 12)"
    and "r_type r = Some ''weekly''" and "start_date r = Some s"
    and "from_date_str s = Some start" and "parse_end (end_date r) = Inr fin"
    and "1 \<le> k" "k \<le> days_in_month y m"
    and "r_id r = Some rid" and "r_title r = Some t"
    and "weekday \<lparr>year = y, month = m, day = k\<rparr> \<in> set (days_of_week r)"
    and "date_le start \<lparr>year = y, month = m, day = k\<rparr>"
    and "fin = None \<or> (\<exists>e. fin = Some e \<and> date_le \<lparr>year = y, month = m, day = k\<rparr> e)"
  shows "\<exists>occs. expand_routines_for_month [r] y m = Inr occs \<and>
           filter (\<lambda>e. e_date e = Some (to_date_str \<lparr>year = y, month = m, day = k\<rparr>)) occs =
             [\<lparr>e_id = ''routine:'' @ rid @ '':'' @ to_date_str \<lparr>year = y, month = m, day = k\<rparr>,
               e_title = Some t,
               e_date = Some (to_date_str \<lparr>year = y, month = m, day = k\<rparr>),
               e_time = r_time r, e_source = ''routine'', e_link = None, e_feed = None,
               e_color = ''routine''\<rparr>]"
proof -
  let ?D = "\<lparr>year = y, month = m, day = k\<rparr>"
  let ?inc = "filter (includes_date r start fin) (month_days y m)"
  have ex: "expand_routines_for_month [r] y m = Inr (map (routine_event r) ?inc)"
    by (rule expand_single [OF assms(1-9)])
  have D: "?D \<in> set (month_days y m)" "valid_date ?D"
    using assms(10,11) in_month_days month_days_valid [OF assms(1-4)] by blast+
  have inc: "includes_date r start fin ?D"
    using assms(14-16) by (cases fin) (auto simp: includes_date_def)
  have "filter (\<lambda>d. to_date_str d = to_date_str ?D) ?inc = filter (\<lambda>d. d = ?D) ?inc"
  proof (rule filter_cong [OF refl])
    fix d assume "d \<in> set ?inc"
    then have "valid_date d" using month_days_valid [OF assms(1-4)] by simp
    then show "(to_date_str d = to_date_str ?D) = (d = ?D)"
      using to_date_str_inj [OF _ D(2)] by blast
  qed
  also have "\<dots> = [?D]"
    using D(1) inc distinct_month_days [of y m] by (intro filter_eq_singleton) simp_all
  finally have "filter (\<lambda>e. e_date e = Some (to_date_str ?D)) (map (routine_event r) ?inc) =
      [routine_event r ?D]"
    by (simp add: filter_map o_def e_date_routine_event)
  then show ?thesis
    using ex assms(12,13) by (simp add: routine_event_def fmt_opt_def)
qed

theorem expand_one_occurrence_per_date_witness:
  "from_date_str ''2024-01-01'' = Some \<lparr>year = 2024, month = 1, day = 1\<rparr> \<and>
   weekday \<lparr>year = 2024, month = 1, day = 8\<rparr> \<in> set (days_of_week gym) \<and>
   (\<exists>occs. expand_routines_for_month [gym] 2024 1 = Inr occs \<and>
      filter (\<lambda>e. e_date e = Some (to_date_str \<lparr>year = 2024, month = 1, day = 8\<rparr>)) occs =
        [\<lparr>e_id = ''routine:'' @ ''r1'' @ '':'' @ to_date_str \<lparr>year = 2024, month = 1, day = 8\<rparr>,
          e_title = Some ''Gym'',
          e_date = Some (to_date_str \<lparr>year = 2024, month = 1, day = 8\<rparr>),
          e_time = r_time gym, e_source = ''routine'', e_link = None, e_feed = None,
          e_color = ''routine''\<rparr>])"
proof -
  have h6: "r_type gym = Some ''weekly''" by code_simp
  have h7: "start_date gym = Some ''2024-01-01''" by code_simp
  have h8: "from_date_str ''2024-01-01'' = Some \<lparr>year = 2024, month = 1, day = 1\<rparr>"
    by code_simp
  have h9: "parse_end (end_date gym) = Inr None" by code_simp
  have h11: "(8::int) \<le> days_in_month 2024 1" by code_simp
  have h12: "r_id gym = Some ''r1''" by code_simp
  have h13: "r_title gym = Some ''Gym''" by code_simp
  have h14: "weekday \<lparr>year = 2024, month = 1, day = 8\<rparr> \<in> set (days_of_week gym)"
    by code_simp
  have h15: "date_le \<lparr>year = 2024, month = 1, day = 1\<rparr> \<lparr>year = 2024, month = 1, day = 8\<rparr>"
    by code_simp
  from expand_one_occurrence_per_date [of 2024 1 gym "''2024-01-01''"
      "\<lparr>year = 2024, month = 1, day = 1\<rparr>" None 8 "''r1''" "''Gym''",
      OF _ _ _ _ _ h6 h7 h8 h9 _ h11 h12 h13 h14 h15]
  show ?thesis using h8 h14 by simp
qed

section \<open>The month index\<close>


lemma mset_setdefault_append:
  "mset (concat (map snd (setdefault_append m ds e))) = mset (concat (map snd m)) + {#e#}"
  by (induction m ds e rule: setdefault_append.induct) auto





lemma mset_group_by_date:
  "mset (concat (map snd (group_by_date es m))) =
     mset (concat (map snd m)) + mset (filter dated es)"
  by (induction es m rule: group_by_date.induct)
     (auto simp: mset_setdefault_append dated_def split: option.splits)


lemma concat_snd_sorted:
  "mset (concat (map snd (map (\<lambda>(ds, lst). (ds, sort_key f lst)) m))) = mset (concat (map snd m))"
  by (induction m) (auto simp: case_prod_beta)

lemma in_month_dated: "in_month y m e \<Longrightarrow> dated e"
  by (auto simp: in_month_def dated_def from_date_str_def parse_year_def
      split: option.splits)

lemma events_map_Inr:
  assumes "events_map_for_month U I rs y m = Inr mp"
  shows "1 \<le> y \<and> y \<le> 9999 \<and> 1 \<le> m \<and> m \<le> 12 \<and>
         (\<exists>ex. expand_routines_for_month rs y m = Inr ex) \<and>
         mp = map (\<lambda>(ds, lst). (ds, sort_key sort_key_of lst))
                (group_by_date (month_events U I rs y m) [])"
proof -
  obtain ex where ex: "expand_routines_for_month rs y m = Inr ex"
    using assms by (cases "expand_routines_for_month rs y m") (auto simp: events_map_for_month_def)
  show ?thesis
    using assms ex expand_routines_for_month_Inr [OF ex]
    by (simp add: events_map_for_month_def month_events_def)
qed

lemma expansion_of_in_month:
  assumes "1 \<le> y" "y \<le> 9999" "1 \<le> m" "m \<le> 12" and "e \<in> set (expansion_of r y m)"
  shows "in_month y m e"
proof -
  obtain d where d: "d \<in> set (month_days y m)" "e = routine_event r d"
    using assms(5) by (auto simp: expansion_of_def split: if_splits option.splits sum.splits)
  have "valid_date d \<and> year d = y \<and> month d = m"
    using month_days_valid [OF assms(1-4) d(1)] .
  then show ?thesis
    using d(2) by (simp add: in_month_def e_date_routine_event from_date_str_to_date_str)
qed

lemma month_events_in_month:
  assumes "1 \<le> y" "y \<le> 9999" "1 \<le> m" "m \<le> 12" and "e \<in> set (month_events U I rs y m)"
  shows "in_month y m e"
  using assms(5) expansion_of_in_month [OF assms(1-4)]
  by (auto simp: month_events_def)

lemma sorted_entry:
  "(k, lst) \<in> set (map (\<lambda>(ds, l). (ds, sort_key f l)) g) \<Longrightarrow>
     \<exists>l. (k, l) \<in> set g \<and> lst = sort_key f l"
  by auto










text \<open>
  What the sort does establish: each list is in ascending order of the key
  (minutes of the day, or 999 without a time; then the title).
\<close>

lemma month_index_sorted_by_key:
  assumes "events_map_for_month U I rs y m = Inr mp" and "(k, lst) \<in> set mp"
  shows "sorted (map sort_key_of lst)"
proof -
  have mp: "mp = map (\<lambda>(ds, lst). (ds, sort_key sort_key_of lst))
      (group_by_date (month_events U I rs y m) [])"
    using events_map_Inr [OF assms(1)] by simp
  obtain l where "lst = sort_key sort_key_of l"
    using assms(2) sorted_entry [of k lst sort_key_of "group_by_date (month_events U I rs y m) []"]
    unfolding mp by blast
  then show ?thesis by (simp add: sorted_sort_key)
qed

text \<open>
  C1, at the input where the code departs from it. The key of an all-day occurrence is
  the sentinel 999, the key of an occurrence at 17:00 is 1020: on 2024-01-15 the month
  index lists the all-day occurrence "A" before the timed occurrence "B", which the
  claim places first.
\<close>

theorem month_index_all_day_before_evening:
  "sort_key_of ua = (999, ''A'') \<and> sort_key_of ub = (1020, ''B'') \<and>
   events_map_for_month [ub, ua] [] [] 2024 1 = Inr [(''2024-01-15'', [ua, ub])]"
  by code_simp

section \<open>Ids\<close>

lemma startswith_hd: "startswith s p \<Longrightarrow> p \<noteq> [] \<Longrightarrow> hd s = hd p"
  unfolding startswith_def by (cases s; cases p) auto

lemma e_id_routine_event:
  "e_id (routine_event r d) = ''routine:'' @ fmt_opt (r_id r) @ '':'' @ to_date_str d"
  by (simp add: routine_event_def)

lemma routine_event_id_inj:
  assumes "e_id (routine_event r d) = e_id (routine_event r' d')"
  shows "fmt_opt (r_id r) = fmt_opt (r_id r') \<and> to_date_str d = to_date_str d'"
proof -
  have eq: "fmt_opt (r_id r) @ (CHR '':'' # to_date_str d) =
        fmt_opt (r_id r') @ (CHR '':'' # to_date_str d')"
    using assms by (simp add: e_id_routine_event)
  have len: "length (CHR '':'' # to_date_str d) = length (CHR '':'' # to_date_str d')"
    by (simp add: length_to_date_str)
  have "fmt_opt (r_id r) = fmt_opt (r_id r') \<and>
        CHR '':'' # to_date_str d = CHR '':'' # to_date_str d'"
    by (rule append_eq_append_conv [THEN iffD1, OF disjI2 [OF len] eq])
  then show ?thesis by simp
qed

lemma expansion_of_elem:
  assumes "e \<in> set (expansion_of r y m)"
  shows "\<exists>d\<in>set (month_days y m). e = routine_event r d"
  using assms by (auto simp: expansion_of_def split: if_splits option.splits sum.splits)

lemma distinct_routine_events:
  assumes "1 \<le> y" "y \<le> 9999" "1 \<le> m" "m \<le> 12"
  shows "distinct (map e_id (map (routine_event r) (filter P (month_days y m))))"
proof -
  have "inj_on (\<lambda>d. e_id (routine_event r d)) (set (filter P (month_days y m)))"
  proof (rule inj_onI)
    fix a b
    assume a: "a \<in> set (filter P (month_days y m))" and b: "b \<in> set (filter P (month_days y m))"
      and eq: "e_id (routine_event r a) = e_id (routine_event r b)"
    have "valid_date a" "valid_date b"
      using a b month_days_valid [OF assms] by auto
    then show "a = b" using routine_event_id_inj [OF eq] to_date_str_inj by blast
  qed
  then show ?thesis
    using distinct_month_days [of y m] by (simp add: distinct_map o_def)
qed

lemma distinct_expansion_of:
  assumes "1 \<le> y" "y \<le> 9999" "1 \<le> m" "m \<le> 12"
  shows "distinct (map e_id (expansion_of r y m))"
  using distinct_routine_events [OF assms]
  by (simp add: expansion_of_def split: option.splits sum.splits)

lemma distinct_expansions:
  assumes "1 \<le> y" "y \<le> 9999" "1 \<le> m" "m \<le> 12"
    and "distinct (map (\<lambda>r. fmt_opt (r_id r)) rs)"
  shows "distinct (map e_id (concat (map (\<lambda>r. expansion_of r y m) rs)))"
  using assms(5)
proof (induction rs)
  case Nil
  then show ?case by simp
next
  case (Cons r rs)
  have disj: "e_id a \<noteq> e_id b"
    if pa: "a \<in> set (expansion_of r y m)"
      and pb: "b \<in> set (concat (map (\<lambda>r. expansion_of r y m) rs))"
    for a b
  proof
    assume eq: "e_id a = e_id b"
    obtain d where a: "a = routine_event r d" using expansion_of_elem [OF pa] by blast
    obtain r' where r': "r' \<in> set rs" "b \<in> set (expansion_of r' y m)" using pb by auto
    obtain d' where b: "b = routine_event r' d'" using expansion_of_elem [OF r'(2)] by blast
    have "fmt_opt (r_id r) = fmt_opt (r_id r')"
      using routine_event_id_inj eq a b by blast
    then show False using Cons.prems r'(1) by force
  qed
  show ?case
    using Cons distinct_expansion_of [OF assms(1-4), of r] disj by auto
qed

lemma index_ids_mset:
  assumes "events_map_for_month U I rs y m = Inr mp"
  shows "mset (index_ids mp) = mset (map e_id (month_events U I rs y m))"
proof -
  let ?all = "month_events U I rs y m"
  have v: "1 \<le> y" "y \<le> 9999" "1 \<le> m" "m \<le> 12"
    and mp: "mp = map (\<lambda>(ds, lst). (ds, sort_key sort_key_of lst)) (group_by_date ?all [])"
    using events_map_Inr [OF assms(1)] by simp_all
  have "\<forall>e\<in>set ?all. dated e"
    using month_events_in_month [OF v] in_month_dated by blast
  then have "filter dated ?all = ?all"
    by (simp add: filter_id_conv)
  moreover have "mset (concat (map snd mp)) = mset (concat (map snd (group_by_date ?all [])))"
    unfolding mp by (rule concat_snd_sorted)
  ultimately have "mset (concat (map snd mp)) = mset ?all"
    by (simp add: mset_group_by_date)
  then show ?thesis
    unfolding index_ids_def by (metis mset_map)
qed

text \<open>
  C7, amended. The ids of all the occurrences of a month index are pairwise distinct
  when the stored user events have pairwise distinct ids that begin with "user:", the
  occurrences of the feed snapshot have pairwise distinct ids that begin with "ics:",
  and the routines have pairwise distinct ids.
\<close>

theorem month_index_ids_distinct:
  assumes "events_map_for_month U I rs y m = Inr mp"
    and "distinct (map e_id U)" and "distinct (map e_id I)"
    and "distinct (map (\<lambda>r. fmt_opt (r_id r)) rs)"
    and "\<forall>e\<in>set U. startswith (e_id e) ''user:''"
    and "\<forall>e\<in>set I. startswith (e_id e) ''ics:''"
  shows "distinct (index_ids mp)"
proof -
  let ?ex = "concat (map (\<lambda>r. expansion_of r y m) rs)"
  have v: "1 \<le> y" "y \<le> 9999" "1 \<le> m" "m \<le> 12"
    using events_map_Inr [OF assms(1)] by simp_all
  have hu: "hd (e_id e) = CHR ''u''" if "e \<in> set U" for e
    using startswith_hd [of "e_id e" "''user:''"] assms(5) that by simp
  have hi: "hd (e_id e) = CHR ''i''" if "e \<in> set I" for e
    using startswith_hd [of "e_id e" "''ics:''"] assms(6) that by simp
  have hr: "hd (e_id e) = CHR ''r''" if pe: "e \<in> set ?ex" for e
  proof -
    obtain r where "e \<in> set (expansion_of r y m)" using pe by auto
    then obtain d where "e = routine_event r d" using expansion_of_elem by blast
    then show ?thesis by (simp add: e_id_routine_event)
  qed
  have du: "distinct (map e_id (filter (in_month y m) U))"
    using assms(2) by (rule distinct_map_filter)
  have di: "distinct (map e_id (filter (in_month y m) I))"
    using assms(3) by (rule distinct_map_filter)
  have de: "distinct (map e_id ?ex)"
    by (rule distinct_expansions [OF v assms(4)])
  have ui: "e_id a \<noteq> e_id b" if "a \<in> set U" "b \<in> set I" for a b
    using hu [OF that(1)] hi [OF that(2)] by auto
  have ue: "e_id a \<noteq> e_id b" if "a \<in> set U" "b \<in> set ?ex" for a b
    using hu [OF that(1)] hr [OF that(2)] by auto
  have ie: "e_id a \<noteq> e_id b" if "a \<in> set I" "b \<in> set ?ex" for a b
    using hi [OF that(1)] hr [OF that(2)] by auto
  have ui': "e_id ` set (filter (in_month y m) U) \<inter> e_id ` set (filter (in_month y m) I) = {}"
    using ui by auto
  have ue': "e_id ` set (filter (in_month y m) U) \<inter> e_id ` set ?ex = {}"
    using ue by (auto simp del: set_concat)
  have ie': "e_id ` set (filter (in_month y m) I) \<inter> e_id ` set ?ex = {}"
    using ie by (auto simp del: set_concat)
  have d1: "distinct (map e_id (filter (in_month y m) I @ ?ex))"
    using di de ie' by (simp add: distinct_append del: set_concat)
  have d2: "e_id ` set (filter (in_month y m) U) \<inter>
            e_id ` set (filter (in_month y m) I @ ?ex) = {}"
    using ui' ue' by (simp add: image_Un Int_Un_distrib del: set_concat)
  have "distinct (map e_id (filter (in_month y m) U) @ map e_id (filter (in_month y m) I @ ?ex))"
    using du d1 d2 by (simp only: distinct_append set_map)
  then have "distinct (map e_id (month_events U I rs y m))"
    unfolding month_events_def by simp
  then show ?thesis
    using index_ids_mset [OF assms(1)] by (metis mset_eq_imp_distinct_iff)
qed

theorem month_index_ids_distinct_witness:
  "events_map_for_month [ub, ua] [] [gym29] 2024 1 =
     Inr [(''2024-01-15'', [ua, ub]), (''2024-01-29'', [gym29_event])] \<and>
   index_ids [(''2024-01-15'', [ua, ub]), (''2024-01-29'', [gym29_event])] =
     [''user:1'', ''user:2'', ''routine:r1:2024-01-29''] \<and>
   distinct (index_ids [(''2024-01-15'', [ua, ub]), (''2024-01-29'', [gym29_event])])"
proof -
  have h1: "events_map_for_month [ub, ua] [] [gym29] 2024 1 =
     Inr [(''2024-01-15'', [ua, ub]), (''2024-01-29'', [gym29_event])]" by code_simp
  have h2: "distinct (map e_id [ub, ua])" by code_simp
  have h3: "distinct (map e_id ([] :: event list))" by simp
  have h4: "distinct (map (\<lambda>r. fmt_opt (r_id r)) [gym29])" by simp
  have h5: "\<forall>e\<in>set [ub, ua]. startswith (e_id e) ''user:''" by code_simp
  have h6: "\<forall>e\<in>set ([] :: event list). startswith (e_id e) ''ics:''" by simp
  have e: "index_ids [(''2024-01-15'', [ua, ub]), (''2024-01-29'', [gym29_event])] =
     [''user:1'', ''user:2'', ''routine:r1:2024-01-29'']" by code_simp
  from month_index_ids_distinct [OF h1 h2 h3 h4 h5 h6] h1 e show ?thesis by blast
qed

text \<open>
  C7, as the specification states it, fails: a feed with two events of the same UID
  (a recurring event and its moved instance) gives two occurrences with the id "ics:0:x",
  and the month index of February 2024 returns both.
\<close>

theorem month_index_ids_counterexample:
  "ids_of_result
     (events_map_for_month []
        (get_events (fetch_all dup_world (ICSClient (Some [''http://b''])) 15)) [] 2024 2) =
     [''ics:0:x'', ''ics:0:x''] \<and>
   \<not> distinct [''ics:0:x'', ''ics:0:x'']"
  by code_simp

text \<open>
  The ids that \<open>fetch_all\<close> publishes begin with "ics:", as the amended C7 assumes of
  the feed snapshot.
\<close>

lemma ics_event_id_prefix: "startswith (e_id (ics_event w i u k v dtv)) ''ics:''"
  by (simp add: ics_event_def startswith_def split: prod.splits)

lemma walk_vevents_ids:
  assumes "\<forall>e\<in>set evs. startswith (e_id e) ''ics:''"
  shows "\<forall>e\<in>set (fst (snd (walk_vevents w i u comps evs tot))). startswith (e_id e) ''ics:''"
  using assms
proof (induction comps arbitrary: evs tot)
  case Nil
  then show ?case by simp
next
  case (Cons v comps)
  show ?case
  proof (cases "dtstart v")
    case None
    then show ?thesis using Cons.IH [OF Cons.prems] by simp
  next
    case (Some p)
    show ?thesis
    proof (cases p)
      case (Prop dtv)
      have "\<forall>e\<in>set (evs @ [ics_event w i u tot v dtv]). startswith (e_id e) ''ics:''"
        using Cons.prems ics_event_id_prefix by simp
      from Cons.IH [OF this, of "tot + 1"] show ?thesis using Some Prop by simp
    next
      case NoDt
      then show ?thesis using Some Cons.prems by simp
    qed
  qed
qed

lemma fetch_loop_ids:
  assumes "\<forall>e\<in>set evs. startswith (e_id e) ''ics:''"
  shows "\<forall>e\<in>set (fst (fetch_loop w t i us evs tot errs)). startswith (e_id e) ''ics:''"
  using assms
proof (induction us arbitrary: i evs tot errs)
  case Nil
  then show ?case by simp
next
  case (Cons u us)
  show ?case
  proof (cases "http_get w u t")
    case FetchError
    then show ?thesis using Cons.IH [OF Cons.prems] by simp
  next
    case (Feed comps)
    obtain r evs' tot' where wk: "walk_vevents w i u comps evs tot = (r, evs', tot')"
      by (cases "walk_vevents w i u comps evs tot") auto
    have "\<forall>e\<in>set evs'. startswith (e_id e) ''ics:''"
      using walk_vevents_ids [OF Cons.prems, of w i u comps tot] wk by simp
    then show ?thesis using Feed wk Cons.IH by simp
  qed
qed

lemma fetch_all_ids_prefixed:
  "\<forall>e\<in>set (events (fetch_all w c t)). startswith (e_id e) ''ics:''"
proof (cases "safe_load_json (sources_file c) [] = []")
  case True
  then show ?thesis by (simp add: fetch_all_def)
next
  case False
  then show ?thesis
    using fetch_all_events [OF refl False, of w t] fetch_loop_ids [of "[]" w t 0] by simp
qed

end
